theory Spec2Isabelle
  imports Main
begin

section \<open>The subscription request and its serialisation\<close>

text \<open>
  \<^verbatim>\<open>print_btc_ticker\<close> builds the dictionary \<^verbatim>\<open>msg\<close> (lines 26 to 32 of
  \<^verbatim>\<open>maintaining_a_websocket_connection.py\<close>) and sends \<^verbatim>\<open>json.dumps(msg)\<close>.
  The dictionary holds strings, one list and nested dictionaries only, so the JSON values
  modelled are these three. A Python dictionary keeps its insertion order, which
  \<^verbatim>\<open>json.dumps\<close> follows: an object is an association list.
\<close>

datatype json = JStr string | JArr "json list" | JObj "(string \<times> json) list"

text \<open>
  \<^verbatim>\<open>json.dumps\<close> with its default arguments: \<^verbatim>\<open>ensure_ascii=True\<close>, the
  item separator \<^verbatim>\<open>", "\<close> and the key separator \<^verbatim>\<open>": "\<close>. Inside a string the
  double quote, the backslash and every character outside the range from space to tilde are
  escaped.
\<close>

definition hex_digit :: "nat \<Rightarrow> char" where
  "hex_digit n = (''0123456789abcdef'') ! (n mod 16)"

definition escape_char :: "char \<Rightarrow> string" where
  "escape_char c =
     (if c = CHR 0x22 then [CHR 0x5C, CHR 0x22]
      else if c = CHR 0x5C then [CHR 0x5C, CHR 0x5C]
      else if c = CHR 0x0A then [CHR 0x5C, CHR ''n'']
      else if c = CHR 0x0D then [CHR 0x5C, CHR ''r'']
      else if c = CHR 0x09 then [CHR 0x5C, CHR ''t'']
      else if c = CHR 0x08 then [CHR 0x5C, CHR ''b'']
      else if c = CHR 0x0C then [CHR 0x5C, CHR ''f'']
      else if of_char c < (0x20 :: nat) \<or> (0x7E :: nat) < of_char c
        then [CHR 0x5C, CHR ''u'', CHR ''0'', CHR ''0'',
              hex_digit (of_char c div 16), hex_digit (of_char c)]
      else [c])"

definition encode_basestring_ascii :: "string \<Rightarrow> string" where
  "encode_basestring_ascii s = [CHR 0x22] @ concat (map escape_char s) @ [CHR 0x22]"

fun join :: "string \<Rightarrow> string list \<Rightarrow> string" where
  "join sep [] = []"
| "join sep [x] = x"
| "join sep (x # y # ys) = x @ sep @ join sep (y # ys)"

fun json_dumps :: "json \<Rightarrow> string" where
  "json_dumps (JStr s) = encode_basestring_ascii s"
| "json_dumps (JArr xs) = ''['' @ join '', '' (map json_dumps xs) @ '']''"
| "json_dumps (JObj kvs) =
     ''{'' @ join '', '' (map (\<lambda>(k, v). encode_basestring_ascii k @ '': '' @ json_dumps v) kvs)
       @ ''}''"

definition msg :: json where
  "msg = JObj [(''jsonrpc'', JStr ''2.0''),
               (''method'', JStr ''public/subscribe''),
               (''params'', JObj [(''channels'', JArr [JStr ''ticker.BTC-PERPETUAL.100ms''])])]"

section \<open>The world outside the program\<close>

text \<open>
  Every call that leaves the program either returns or raises. The two handlers of the
  source are both \<^verbatim>\<open>except Exception\<close>, so all that matters about a raised object is
  whether it is an instance of \<^verbatim>\<open>Exception\<close> (a refused connection, a closed
  socket, a failing \<^verbatim>\<open>print\<close>) or only of \<^verbatim>\<open>BaseException\<close>
  (\<^verbatim>\<open>asyncio.CancelledError\<close>, \<^verbatim>\<open>KeyboardInterrupt\<close>, \<^verbatim>\<open>SystemExit\<close>). The string
  is what \<^verbatim>\<open>str(e)\<close> gives, which the log lines interpolate.
\<close>

datatype exc = Is_Exception string | Not_Exception string

datatype 'a outcome = Returns 'a | Raises exc

text \<open>
  The collaborators, as functions of where the program stands:
  \<^item> \<open>ws_connect w i\<close>: entering \<^verbatim>\<open>async with websockets.connect(URL)\<close> for the
    \<open>i\<close>-th time;
  \<^item> \<open>ws_send w g frame\<close>: \<^verbatim>\<open>await websocket.send(frame)\<close> on the \<open>g\<close>-th yielded
    connection;
  \<^item> \<open>ws_open w g k\<close>: the value of \<^verbatim>\<open>websocket.open\<close>, a boolean property of the
    connection object, at the head of the \<open>k\<close>-th iteration of the \<^verbatim>\<open>while\<close> loop on
    connection \<open>g\<close>;
  \<^item> \<open>ws_recv w g k\<close>: \<^verbatim>\<open>await websocket.recv()\<close> in that iteration;
  \<^item> \<open>py_print w g k m\<close>: \<^verbatim>\<open>print(response)\<close> in that iteration, the consumer of
    the message \<open>m\<close>;
  \<^item> \<open>ws_aexit w g\<close>: leaving the \<^verbatim>\<open>async with\<close> block of connection \<open>g\<close>, which
    closes it.
  The number \<open>g\<close> of a connection is its generation: the count of connections yielded
  before it.
\<close>

record world =
  ws_connect :: "nat \<Rightarrow> unit outcome"
  ws_send :: "nat \<Rightarrow> string \<Rightarrow> unit outcome"
  ws_open :: "nat \<Rightarrow> nat \<Rightarrow> bool"
  ws_recv :: "nat \<Rightarrow> nat \<Rightarrow> string outcome"
  py_print :: "nat \<Rightarrow> nat \<Rightarrow> string \<Rightarrow> unit outcome"
  ws_aexit :: "nat \<Rightarrow> unit outcome"

section \<open>What the program does, as a trace\<close>

text \<open>
  \<open>Sleep_unawaited d\<close> is line 17: \<^verbatim>\<open>asyncio.sleep(retry_seconds)\<close> is called and the
  coroutine object it returns is dropped. There is no \<^verbatim>\<open>await\<close>, so the generator is
  not suspended there.
\<close>

datatype event =
    Connect_attempt nat
  | Opened nat
  | Log_error string
  | Sleep_unawaited nat
  | Send nat string
  | Recv nat
  | Frame nat string
  | Print nat string
  | Close nat

text \<open>
  Where control stands between two steps. \<open>Gen_connect\<close>: the generator at the head of its
  \<^verbatim>\<open>while True\<close>, about to connect. \<open>Body_send g\<close>: connection \<open>g\<close> has just been
  yielded to the body of the \<^verbatim>\<open>async for\<close>. \<open>Body_while g k\<close>: at the head of the
  inner \<^verbatim>\<open>while websocket.open\<close>, \<open>k\<close> iterations done. \<open>Gen_resume g\<close>: the body is
  over (its \<^verbatim>\<open>try\<close> ended or its handler ran \<^verbatim>\<open>continue\<close>), the \<^verbatim>\<open>async for\<close>
  asks for the next item and the generator resumes after its \<^verbatim>\<open>yield\<close>.
  \<open>Raised x\<close>: \<open>x\<close> has left \<^verbatim>\<open>print_btc_ticker\<close>. \<open>Returned\<close>:
  \<^verbatim>\<open>print_btc_ticker\<close> has returned, which needs the generator to finish.

  The model is the run of \<^verbatim>\<open>print_btc_ticker\<close> and stops where that run stops. When an
  object leaves the body of the \<^verbatim>\<open>async for\<close>, the generator is still suspended at its
  \<^verbatim>\<open>yield\<close>, with its connection open. Whoever runs the coroutine closes the generator
  later (\<^verbatim>\<open>asyncio.run\<close> does, with \<^verbatim>\<open>aclose\<close>): the \<^verbatim>\<open>async with\<close> block is left
  then, and an \<^verbatim>\<open>Exception\<close> raised there would reach the handler of line 15 and the
  loop once more. That finalisation is not part of \<^verbatim>\<open>print_btc_ticker\<close> and is not
  modelled: in \<open>Raised x\<close> and \<open>Returned\<close> a step does nothing, and no property below
  speaks of what follows them.
\<close>

datatype pc =
    Gen_connect
  | Body_send nat
  | Body_while nat nat
  | Gen_resume nat
  | Raised exc
  | Returned

record config =
  pc :: pc
  attempts :: nat
  generation :: nat

definition init :: config where
  "init = \<lparr>pc = Gen_connect, attempts = 0, generation = 0\<rparr>"

subsection \<open>\<^verbatim>\<open>websocket_generator\<close>\<close>

text \<open>
  Lines 11 to 18. A failure to connect and a failure while leaving the \<^verbatim>\<open>async with\<close>
  block are both inside the \<^verbatim>\<open>try\<close>: the handler logs, calls \<^verbatim>\<open>asyncio.sleep\<close>
  without awaiting it, and goes round the loop. What is not an \<^verbatim>\<open>Exception\<close> leaves
  the generator, and the \<^verbatim>\<open>async for\<close> that pulled it.
\<close>

definition generator_handler :: "nat \<Rightarrow> string \<Rightarrow> event list" where
  "generator_handler retry_seconds e =
     [Log_error (''Websocket connection failed: '' @ e), Sleep_unawaited retry_seconds]"

definition generator_connect :: "nat \<Rightarrow> world \<Rightarrow> config \<Rightarrow> event list \<times> config" where
  "generator_connect retry_seconds w c =
     (case ws_connect w (attempts c) of
        Returns _ \<Rightarrow>
          ([Connect_attempt (attempts c), Opened (generation c)],
           \<lparr>pc = Body_send (generation c), attempts = Suc (attempts c),
            generation = Suc (generation c)\<rparr>)
      | Raises (Is_Exception e) \<Rightarrow>
          (Connect_attempt (attempts c) # generator_handler retry_seconds e,
           c\<lparr>pc := Gen_connect, attempts := Suc (attempts c)\<rparr>)
      | Raises (Not_Exception e) \<Rightarrow>
          ([Connect_attempt (attempts c)],
           c\<lparr>pc := Raised (Not_Exception e), attempts := Suc (attempts c)\<rparr>))"

definition generator_resume :: "nat \<Rightarrow> world \<Rightarrow> nat \<Rightarrow> config \<Rightarrow> event list \<times> config" where
  "generator_resume retry_seconds w g c =
     (case ws_aexit w g of
        Returns _ \<Rightarrow> ([Close g], c\<lparr>pc := Gen_connect\<rparr>)
      | Raises (Is_Exception e) \<Rightarrow>
          (Close g # generator_handler retry_seconds e, c\<lparr>pc := Gen_connect\<rparr>)
      | Raises (Not_Exception e) \<Rightarrow> ([Close g], c\<lparr>pc := Raised (Not_Exception e)\<rparr>))"

subsection \<open>\<^verbatim>\<open>print_btc_ticker\<close>\<close>

text \<open>
  Lines 23 to 41. One handler encloses the send, the loop, the receive and the
  \<^verbatim>\<open>print\<close>; it logs and runs \<^verbatim>\<open>continue\<close>, which belongs to the
  \<^verbatim>\<open>async for\<close>.
\<close>

definition body_handler :: "string \<Rightarrow> event list" where
  "body_handler e = [Log_error (''Error in print_btc_ticker: '' @ e)]"

definition body_send :: "world \<Rightarrow> nat \<Rightarrow> config \<Rightarrow> event list \<times> config" where
  "body_send w g c =
     (case ws_send w g (json_dumps msg) of
        Returns _ \<Rightarrow> ([Send g (json_dumps msg)], c\<lparr>pc := Body_while g 0\<rparr>)
      | Raises (Is_Exception e) \<Rightarrow>
          (Send g (json_dumps msg) # body_handler e, c\<lparr>pc := Gen_resume g\<rparr>)
      | Raises (Not_Exception e) \<Rightarrow>
          ([Send g (json_dumps msg)], c\<lparr>pc := Raised (Not_Exception e)\<rparr>))"

definition body_while :: "world \<Rightarrow> nat \<Rightarrow> nat \<Rightarrow> config \<Rightarrow> event list \<times> config" where
  "body_while w g k c =
     (if \<not> ws_open w g k then ([], c\<lparr>pc := Gen_resume g\<rparr>)
      else case ws_recv w g k of
        Raises (Is_Exception e) \<Rightarrow> (Recv g # body_handler e, c\<lparr>pc := Gen_resume g\<rparr>)
      | Raises (Not_Exception e) \<Rightarrow> ([Recv g], c\<lparr>pc := Raised (Not_Exception e)\<rparr>)
      | Returns response \<Rightarrow>
          (case py_print w g k response of
             Returns _ \<Rightarrow>
               ([Recv g, Frame g response, Print g response], c\<lparr>pc := Body_while g (Suc k)\<rparr>)
           | Raises (Is_Exception e) \<Rightarrow>
               ([Recv g, Frame g response, Print g response] @ body_handler e,
                c\<lparr>pc := Gen_resume g\<rparr>)
           | Raises (Not_Exception e) \<Rightarrow>
               ([Recv g, Frame g response, Print g response],
                c\<lparr>pc := Raised (Not_Exception e)\<rparr>)))"

text \<open>
  \<^verbatim>\<open>print_btc_ticker\<close> calls \<^verbatim>\<open>websocket_generator()\<close> with no argument, so
  \<^verbatim>\<open>retry_seconds\<close> has its default.
\<close>

definition retry_seconds_default :: nat where
  "retry_seconds_default = 5"

definition step :: "world \<Rightarrow> config \<Rightarrow> event list \<times> config" where
  "step w c =
     (case pc c of
        Gen_connect \<Rightarrow> generator_connect retry_seconds_default w c
      | Body_send g \<Rightarrow> body_send w g c
      | Body_while g k \<Rightarrow> body_while w g k c
      | Gen_resume g \<Rightarrow> generator_resume retry_seconds_default w g c
      | Raised x \<Rightarrow> ([], c)
      | Returned \<Rightarrow> ([], c))"

text \<open>
  \<open>exec w n c\<close>: the events of the first \<open>n\<close> steps from \<open>c\<close>, and where they lead. The
  program itself has no bound on the number of steps.
\<close>

fun exec :: "world \<Rightarrow> nat \<Rightarrow> config \<Rightarrow> event list \<times> config" where
  "exec w 0 c = ([], c)"
| "exec w (Suc n) c =
     (case step w c of (es, c') \<Rightarrow> (case exec w n c' of (es', c'') \<Rightarrow> (es @ es', c'')))"

definition print_btc_ticker :: "world \<Rightarrow> nat \<Rightarrow> event list \<times> config" where
  "print_btc_ticker w n = exec w n init"

section \<open>Notions the properties are stated with\<close>

text \<open>What was sent, received and printed on connection \<open>g\<close>, in order.\<close>

fun sends :: "nat \<Rightarrow> event list \<Rightarrow> string list" where
  "sends g [] = []"
| "sends g (Send h f # es) = (if h = g then f # sends g es else sends g es)"
| "sends g (_ # es) = sends g es"



text \<open>The connection an event receives on or forwards from, and the one it uses at all.\<close>

fun pumps :: "event \<Rightarrow> nat option" where
  "pumps (Recv g) = Some g"
| "pumps (Frame g m) = Some g"
| "pumps (Print g m) = Some g"
| "pumps _ = None"

fun uses :: "event \<Rightarrow> nat option" where
  "uses (Send g f) = Some g"
| "uses e = pumps e"

text \<open>The connections open after a trace: opened and not yet closed.\<close>

fun track :: "nat list \<Rightarrow> event \<Rightarrow> nat list" where
  "track os (Opened g) = os @ [g]"
| "track os (Close g) = removeAll g os"
| "track os _ = os"

definition open_handles :: "event list \<Rightarrow> nat list" where
  "open_handles t = foldl track [] t"

fun is_connect_attempt :: "event \<Rightarrow> bool" where
  "is_connect_attempt (Connect_attempt i) = True"
| "is_connect_attempt _ = False"

fun is_sleep :: "event \<Rightarrow> bool" where
  "is_sleep (Sleep_unawaited d) = True"
| "is_sleep _ = False"

text \<open>The connection the program holds at a control point, if any.\<close>

fun holds :: "pc \<Rightarrow> nat option" where
  "holds (Body_send g) = Some g"
| "holds (Body_while g k) = Some g"
| "holds (Gen_resume g) = Some g"
| "holds _ = None"

fun running :: "pc \<Rightarrow> bool" where
  "running (Raised x) = False"
| "running Returned = False"
| "running _ = True"

text \<open>How a call ended: with an \<^verbatim>\<open>Exception\<close>, or with something the handlers let through.\<close>

fun is_failure :: "'a outcome \<Rightarrow> bool" where
  "is_failure (Raises (Is_Exception e)) = True"
| "is_failure _ = False"

fun is_cancel :: "'a outcome \<Rightarrow> bool" where
  "is_cancel (Raises (Not_Exception e)) = True"
| "is_cancel _ = False"

text \<open>
  \<open>fails_at w c\<close>: the step from \<open>c\<close> meets a failure (of the connection attempt, of the
  handshake send, of the receive, of the consumer, or of the close).
  \<open>cancelled_at w c\<close>: it meets something that is not an \<^verbatim>\<open>Exception\<close>.
\<close>

definition meets :: "(unit outcome \<Rightarrow> bool) \<Rightarrow> world \<Rightarrow> config \<Rightarrow> bool" where
  "meets bad w c =
     (case pc c of
        Gen_connect \<Rightarrow> bad (ws_connect w (attempts c))
      | Body_send g \<Rightarrow> bad (ws_send w g (json_dumps msg))
      | Body_while g k \<Rightarrow>
          ws_open w g k \<and>
          (case ws_recv w g k of
             Returns response \<Rightarrow> bad (py_print w g k response)
           | Raises x \<Rightarrow> bad (Raises x))
      | Gen_resume g \<Rightarrow> bad (ws_aexit w g)
      | Raised x \<Rightarrow> False
      | Returned \<Rightarrow> False)"

definition fails_at :: "world \<Rightarrow> config \<Rightarrow> bool" where
  "fails_at w c = meets is_failure w c"

definition cancelled_at :: "world \<Rightarrow> config \<Rightarrow> bool" where
  "cancelled_at w c = meets is_cancel w c"

definition no_cancellation :: "world \<Rightarrow> bool" where
  "no_cancellation w \<longleftrightarrow>
     (\<forall>i. \<not> is_cancel (ws_connect w i)) \<and>
     (\<forall>g f. \<not> is_cancel (ws_send w g f)) \<and>
     (\<forall>g k. \<not> is_cancel (ws_recv w g k)) \<and>
     (\<forall>g k m. \<not> is_cancel (py_print w g k m)) \<and>
     (\<forall>g. \<not> is_cancel (ws_aexit w g))"

text \<open>Auxiliary notions of the proofs.\<close>

definition all_splits :: "(event list \<Rightarrow> event \<Rightarrow> bool) \<Rightarrow> event list \<Rightarrow> bool" where
  "all_splits Q t \<longleftrightarrow> (\<forall>pre e post. t = pre @ e # post \<longrightarrow> Q pre e)"

fun checks :: "(event list \<Rightarrow> event \<Rightarrow> bool) \<Rightarrow> event list \<Rightarrow> event list \<Rightarrow> bool" where
  "checks Q t [] = True"
| "checks Q t (e # es) = (Q t e \<and> checks Q (t @ [e]) es)"

definition wf :: "config \<Rightarrow> bool" where
  "wf c \<longleftrightarrow> (\<forall>g. holds (pc c) = Some g \<longrightarrow> generation c = Suc g)"

definition left_behind :: "nat \<Rightarrow> config \<Rightarrow> bool" where
  "left_behind g c \<longleftrightarrow>
     wf c \<and> g < generation c \<and> pc c \<noteq> Body_send g \<and> (\<forall>k. pc c \<noteq> Body_while g k)"

definition handshake_seen :: "event list \<Rightarrow> event \<Rightarrow> bool" where
  "handshake_seen pre e \<longleftrightarrow> (\<forall>g. pumps e = Some g \<longrightarrow> sends g pre = [json_dumps msg])"

definition one_open :: "event list \<Rightarrow> event \<Rightarrow> bool" where
  "one_open pre e \<longleftrightarrow>
     length (open_handles (pre @ [e])) \<le> 1 \<and> (is_connect_attempt e \<longrightarrow> open_handles pre = [])"

definition hs_inv :: "event list \<Rightarrow> config \<Rightarrow> bool" where
  "hs_inv t c \<longleftrightarrow> wf c \<and> all_splits handshake_seen t \<and>
     (\<forall>g. (Opened g \<in> set t \<longleftrightarrow> g < generation c) \<and>
          sends g t = (if g < generation c \<and> pc c \<noteq> Body_send g then [json_dumps msg] else []))"

definition oh_inv :: "event list \<Rightarrow> config \<Rightarrow> bool" where
  "oh_inv t c \<longleftrightarrow> all_splits one_open t \<and> length (open_handles t) \<le> 1 \<and>
     (pc c = Gen_connect \<longrightarrow> open_handles t = []) \<and>
     (\<forall>g. holds (pc c) = Some g \<longrightarrow> open_handles t = [g])"

section \<open>Concrete worlds\<close>

text \<open>A server that accepts every connection and sends the same frame for ever.\<close>

definition steady :: world where
  "steady = \<lparr>ws_connect = (\<lambda>i. Returns ()), ws_send = (\<lambda>g f. Returns ()),
     ws_open = (\<lambda>g k. True), ws_recv = (\<lambda>g k. Returns ''tick''),
     py_print = (\<lambda>g k m. Returns ()), ws_aexit = (\<lambda>g. Returns ())\<rparr>"

text \<open>The consumer fails on the first message of the first connection.\<close>

definition consumer_fails :: world where
  "consumer_fails = steady\<lparr>py_print :=
     (\<lambda>g k m. if g = 0 \<and> k = 0 then Raises (Is_Exception ''broken pipe'') else Returns ())\<rparr>"

text \<open>The second receive on the first connection fails.\<close>

definition recv_fails :: world where
  "recv_fails = steady\<lparr>ws_recv :=
     (\<lambda>g k. if g = 0 \<and> k = 1 then Raises (Is_Exception ''connection closed'')
             else Returns ''tick'')\<rparr>"

text \<open>The server refuses the first connection attempt, and no other.\<close>

definition refused_once :: world where
  "refused_once = steady\<lparr>ws_connect :=
     (\<lambda>i. if i = 0 then Raises (Is_Exception ''refused'') else Returns ())\<rparr>"

text \<open>The server refuses every connection attempt.\<close>

definition refused_always :: world where
  "refused_always = steady\<lparr>ws_connect := (\<lambda>i. Raises (Is_Exception ''refused''))\<rparr>"

text \<open>
  The first attempt is refused; the task is cancelled once that attempt has failed, and
  the cancellation arrives at the next point where the program is suspended.
\<close>

definition cancelled_after_refusal :: world where
  "cancelled_after_refusal = steady\<lparr>ws_connect :=
     (\<lambda>i. if i = 0 then Raises (Is_Exception ''refused'')
           else Raises (Not_Exception ''CancelledError''))\<rparr>"

text \<open>The task is cancelled during the second receive on the first connection.\<close>

definition cancelled_in_recv :: world where
  "cancelled_in_recv = steady\<lparr>ws_recv :=
     (\<lambda>g k. if g = 0 \<and> k = 1 then Raises (Not_Exception ''CancelledError'')
             else Returns ''tick'')\<rparr>"

section \<open>Basic facts\<close>

lemmas step_defs = step_def generator_connect_def generator_resume_def body_send_def body_while_def
  generator_handler_def body_handler_def retry_seconds_default_def

lemma sends_append: "sends g (xs @ ys) = sends g xs @ sends g ys"
  by (induction g xs rule: sends.induct) auto



lemma open_handles_append: "open_handles (xs @ ys) = foldl track (open_handles xs) ys"
  by (simp add: open_handles_def)

lemma exec_add:
  "exec w (n + m) c =
     (case exec w n c of (es, c') \<Rightarrow> (case exec w m c' of (es', c'') \<Rightarrow> (es @ es', c'')))"
  by (induction n arbitrary: c) (auto split: prod.splits)

lemma exec_Suc_right:
  "exec w (Suc n) c =
     (case exec w n c of (es, c') \<Rightarrow> (case step w c' of (es', c'') \<Rightarrow> (es @ es', c'')))"
  using exec_add [of w n 1 c] by (simp split: prod.splits)

lemma exec_invariant:
  assumes "P [] c"
    and "\<And>t c es c'. P t c \<Longrightarrow> step w c = (es, c') \<Longrightarrow> P (t @ es) c'"
  shows "exec w n c = (t, c') \<Longrightarrow> P t c'"
proof (induction n arbitrary: t c')
  case 0
  then show ?case using assms(1) by simp
next
  case (Suc n)
  obtain t0 c0 where e: "exec w n c = (t0, c0)" by (cases "exec w n c")
  obtain es c1 where s: "step w c0 = (es, c1)" by (cases "step w c0")
  from Suc.prems e s have "t = t0 @ es" "c' = c1" by (simp_all add: exec_Suc_right del: exec.simps)
  with assms(2) [OF Suc.IH [OF e] s] show ?case by simp
qed

lemma all_splits_Nil: "all_splits Q []"
  by (simp add: all_splits_def)

lemma all_splits_snoc: "all_splits Q (t @ [e]) \<longleftrightarrow> all_splits Q t \<and> Q t e"
proof
  assume a: "all_splits Q (t @ [e])"
  have "Q t e" using a unfolding all_splits_def by blast
  moreover have "all_splits Q t" unfolding all_splits_def
  proof (intro allI impI)
    fix pre x post assume "t = pre @ x # post"
    then have "t @ [e] = pre @ x # (post @ [e])" by simp
    then show "Q pre x" using a unfolding all_splits_def by blast
  qed
  ultimately show "all_splits Q t \<and> Q t e" by simp
next
  assume a: "all_splits Q t \<and> Q t e"
  show "all_splits Q (t @ [e])" unfolding all_splits_def
  proof (intro allI impI)
    fix pre x post assume h: "t @ [e] = pre @ x # post"
    show "Q pre x"
    proof (cases post rule: rev_cases)
      case Nil
      with h have "pre = t" "x = e" by simp_all
      with a show ?thesis by simp
    next
      case (snoc post' y)
      with h have "t = pre @ x # post'" by simp
      with a show ?thesis unfolding all_splits_def by blast
    qed
  qed
qed

lemma all_splits_append: "all_splits Q (t @ es) \<longleftrightarrow> all_splits Q t \<and> checks Q t es"
proof (induction es arbitrary: t)
  case Nil
  then show ?case by simp
next
  case (Cons e es)
  have "all_splits Q (t @ e # es) = all_splits Q ((t @ [e]) @ es)" by simp
  also have "\<dots> = (all_splits Q (t @ [e]) \<and> checks Q (t @ [e]) es)" by (rule Cons.IH)
  finally show ?case by (auto simp: all_splits_snoc)
qed

lemma wf_init: "wf init"
  by (simp add: wf_def init_def)

lemma wf_step: "wf c \<Longrightarrow> step w c = (es, c') \<Longrightarrow> wf c'"
  by (auto simp: wf_def step_defs split: pc.splits outcome.splits exc.splits if_splits)

lemma wf_exec: "wf c \<Longrightarrow> exec w n c = (es, c') \<Longrightarrow> wf c'"
  using exec_invariant [where P = "\<lambda>t c. wf c"] wf_step by blast

lemma wf_reachable: "wf (snd (print_btc_ticker w n))"
  using wf_exec [OF wf_init, of w n] by (cases "exec w n init") (simp add: print_btc_ticker_def)

lemma step_cases [consumes 1, case_names connected refused connect_cancelled
    sent send_failed send_cancelled not_open recv_failed recv_cancelled
    forwarded print_failed print_cancelled closed close_failed close_cancelled stopped]:
  assumes "step w c = (es, c')"
  obtains
    "pc c = Gen_connect" "ws_connect w (attempts c) = Returns ()"
      "es = [Connect_attempt (attempts c), Opened (generation c)]"
      "c' = \<lparr>pc = Body_send (generation c), attempts = Suc (attempts c),
             generation = Suc (generation c)\<rparr>"
  | e where "pc c = Gen_connect" "ws_connect w (attempts c) = Raises (Is_Exception e)"
      "es = [Connect_attempt (attempts c), Log_error (''Websocket connection failed: '' @ e),
             Sleep_unawaited 5]"
      "c' = c\<lparr>pc := Gen_connect, attempts := Suc (attempts c)\<rparr>"
  | e where "pc c = Gen_connect" "ws_connect w (attempts c) = Raises (Not_Exception e)"
      "es = [Connect_attempt (attempts c)]"
      "c' = c\<lparr>pc := Raised (Not_Exception e), attempts := Suc (attempts c)\<rparr>"
  | g where "pc c = Body_send g" "ws_send w g (json_dumps msg) = Returns ()"
      "es = [Send g (json_dumps msg)]" "c' = c\<lparr>pc := Body_while g 0\<rparr>"
  | g e where "pc c = Body_send g" "ws_send w g (json_dumps msg) = Raises (Is_Exception e)"
      "es = [Send g (json_dumps msg), Log_error (''Error in print_btc_ticker: '' @ e)]"
      "c' = c\<lparr>pc := Gen_resume g\<rparr>"
  | g e where "pc c = Body_send g" "ws_send w g (json_dumps msg) = Raises (Not_Exception e)"
      "es = [Send g (json_dumps msg)]" "c' = c\<lparr>pc := Raised (Not_Exception e)\<rparr>"
  | g k where "pc c = Body_while g k" "\<not> ws_open w g k" "es = []" "c' = c\<lparr>pc := Gen_resume g\<rparr>"
  | g k e where "pc c = Body_while g k" "ws_open w g k" "ws_recv w g k = Raises (Is_Exception e)"
      "es = [Recv g, Log_error (''Error in print_btc_ticker: '' @ e)]"
      "c' = c\<lparr>pc := Gen_resume g\<rparr>"
  | g k e where "pc c = Body_while g k" "ws_open w g k" "ws_recv w g k = Raises (Not_Exception e)"
      "es = [Recv g]" "c' = c\<lparr>pc := Raised (Not_Exception e)\<rparr>"
  | g k m where "pc c = Body_while g k" "ws_open w g k" "ws_recv w g k = Returns m"
      "py_print w g k m = Returns ()"
      "es = [Recv g, Frame g m, Print g m]" "c' = c\<lparr>pc := Body_while g (Suc k)\<rparr>"
  | g k m e where "pc c = Body_while g k" "ws_open w g k" "ws_recv w g k = Returns m"
      "py_print w g k m = Raises (Is_Exception e)"
      "es = [Recv g, Frame g m, Print g m, Log_error (''Error in print_btc_ticker: '' @ e)]"
      "c' = c\<lparr>pc := Gen_resume g\<rparr>"
  | g k m e where "pc c = Body_while g k" "ws_open w g k" "ws_recv w g k = Returns m"
      "py_print w g k m = Raises (Not_Exception e)"
      "es = [Recv g, Frame g m, Print g m]" "c' = c\<lparr>pc := Raised (Not_Exception e)\<rparr>"
  | g where "pc c = Gen_resume g" "ws_aexit w g = Returns ()"
      "es = [Close g]" "c' = c\<lparr>pc := Gen_connect\<rparr>"
  | g e where "pc c = Gen_resume g" "ws_aexit w g = Raises (Is_Exception e)"
      "es = [Close g, Log_error (''Websocket connection failed: '' @ e), Sleep_unawaited 5]"
      "c' = c\<lparr>pc := Gen_connect\<rparr>"
  | g e where "pc c = Gen_resume g" "ws_aexit w g = Raises (Not_Exception e)"
      "es = [Close g]" "c' = c\<lparr>pc := Raised (Not_Exception e)\<rparr>"
  | "\<not> running (pc c)" "es = []" "c' = c"
proof (cases "pc c")
  case Gen_connect
  show ?thesis
  proof (cases "ws_connect w (attempts c)")
    case (Returns u)
    with assms Gen_connect show ?thesis by (intro that(1)) (auto simp: step_defs)
  next
    case (Raises x)
    show ?thesis
    proof (cases x)
      case (Is_Exception e)
      with assms Gen_connect Raises show ?thesis by (intro that(2) [of e]) (auto simp: step_defs)
    next
      case (Not_Exception e)
      with assms Gen_connect Raises show ?thesis by (intro that(3) [of e]) (auto simp: step_defs)
    qed
  qed
next
  case (Body_send g)
  show ?thesis
  proof (cases "ws_send w g (json_dumps msg)")
    case (Returns u)
    with assms Body_send show ?thesis
      by (intro that(4) [of g]) (auto simp: step_def body_send_def)
  next
    case (Raises x)
    show ?thesis
    proof (cases x)
      case (Is_Exception e)
      with assms Body_send Raises show ?thesis
        by (intro that(5) [of g e]) (auto simp: step_def body_send_def body_handler_def)
    next
      case (Not_Exception e)
      with assms Body_send Raises show ?thesis
        by (intro that(6) [of g e]) (auto simp: step_def body_send_def)
    qed
  qed
next
  case (Body_while g k)
  show ?thesis
  proof (cases "ws_open w g k")
    case False
    with assms Body_while show ?thesis
      by (intro that(7) [of g k]) (auto simp: step_def body_while_def)
  next
    case True
    show ?thesis
    proof (cases "ws_recv w g k")
      case (Raises x)
      show ?thesis
      proof (cases x)
        case (Is_Exception e)
        with assms Body_while True Raises show ?thesis
          by (intro that(8) [of g k e]) (auto simp: step_def body_while_def body_handler_def)
      next
        case (Not_Exception e)
        with assms Body_while True Raises show ?thesis
          by (intro that(9) [of g k e]) (auto simp: step_def body_while_def)
      qed
    next
      case (Returns m)
      show ?thesis
      proof (cases "py_print w g k m")
        case (Returns u)
        with assms Body_while True \<open>ws_recv w g k = Returns m\<close> show ?thesis
          by (intro that(10) [of g k m]) (auto simp: step_def body_while_def)
      next
        case (Raises x)
        show ?thesis
        proof (cases x)
          case (Is_Exception e)
          with assms Body_while True \<open>ws_recv w g k = Returns m\<close> Raises show ?thesis
            by (intro that(11) [of g k m e])
              (auto simp: step_def body_while_def body_handler_def)
        next
          case (Not_Exception e)
          with assms Body_while True \<open>ws_recv w g k = Returns m\<close> Raises show ?thesis
            by (intro that(12) [of g k m e]) (auto simp: step_def body_while_def)
        qed
      qed
    qed
  qed
next
  case (Gen_resume g)
  show ?thesis
  proof (cases "ws_aexit w g")
    case (Returns u)
    with assms Gen_resume show ?thesis by (intro that(13) [of g]) (auto simp: step_defs)
  next
    case (Raises x)
    show ?thesis
    proof (cases x)
      case (Is_Exception e)
      with assms Gen_resume Raises show ?thesis by (intro that(14) [of g e]) (auto simp: step_defs)
    next
      case (Not_Exception e)
      with assms Gen_resume Raises show ?thesis by (intro that(15) [of g e]) (auto simp: step_defs)
    qed
  qed
next
  case (Raised x)
  with assms show ?thesis by (intro that(16)) (auto simp: step_def)
next
  case Returned
  with assms show ?thesis by (intro that(16)) (auto simp: step_def)
qed

lemma is_failure_iff: "is_failure r \<longleftrightarrow> (\<exists>e. r = Raises (Is_Exception e))"
  by (cases r rule: is_failure.cases) simp_all

lemma is_cancel_iff: "is_cancel r \<longleftrightarrow> (\<exists>e. r = Raises (Not_Exception e))"
  by (cases r rule: is_cancel.cases) simp_all

lemma left_behind_step:
  assumes "left_behind g c" and "step w c = (es, c')"
  shows "left_behind g c' \<and> (\<forall>x\<in>set es. \<forall>h. uses x = Some h \<longrightarrow> g < h)"
  using assms(2) assms(1)
  by (cases rule: step_cases) (auto simp: left_behind_def wf_def)

lemma left_behind_exec:
  assumes "left_behind g c" and "exec w n c = (es, c')"
  shows "\<forall>x\<in>set es. \<forall>h. uses x = Some h \<longrightarrow> g < h"
proof -
  have "left_behind g c' \<and> (\<forall>x\<in>set es. \<forall>h. uses x = Some h \<longrightarrow> g < h)"
    using assms(2)
  proof (rule exec_invariant [rotated 2])
    show "left_behind g c \<and> (\<forall>x\<in>set []. \<forall>h. uses x = Some h \<longrightarrow> g < h)"
      using assms(1) by simp
  next
    fix t c es c'
    assume "left_behind g c \<and> (\<forall>x\<in>set t. \<forall>h. uses x = Some h \<longrightarrow> g < h)"
      and "step w c = (es, c')"
    then show "left_behind g c' \<and> (\<forall>x\<in>set (t @ es). \<forall>h. uses x = Some h \<longrightarrow> g < h)"
      using left_behind_step [of g c w es c'] by auto
  qed
  then show ?thesis by simp
qed

lemma left_behind_resume:
  assumes "wf c" and "holds (pc c) = Some g"
  shows "left_behind g (c\<lparr>pc := Gen_resume g\<rparr>)"
  using assms by (auto simp: left_behind_def wf_def)

lemma resume_closes: "\<exists>rest. fst (step w (c\<lparr>pc := Gen_resume g\<rparr>)) = Close g # rest"
  by (simp add: step_defs split: outcome.splits exc.splits)

lemmas run_defs = print_btc_ticker_def init_def step_defs steady_def eval_nat_numeral

section \<open>The claims\<close>

text \<open>
  C7. The frame sent on each new connection is the serialisation of \<open>msg\<close>, the JSON
  object with the members \<^verbatim>\<open>jsonrpc\<close>, \<^verbatim>\<open>method\<close> and \<^verbatim>\<open>params\<close>, the channel list
  being the one string \<^verbatim>\<open>ticker.BTC-PERPETUAL.100ms\<close>: every frame the program ever
  sends, on whatever connection and in whatever world, is that text.
\<close>

theorem subscribe_frame:
  \<open>json_dumps msg =
     ''{"jsonrpc": "2.0", "method": "public/subscribe", "params": {"channels": ["ticker.BTC-PERPETUAL.100ms"]}}''
   \<and> (\<forall>g f. Send g f \<in> set (fst (print_btc_ticker w n)) \<longrightarrow> f =
     ''{"jsonrpc": "2.0", "method": "public/subscribe", "params": {"channels": ["ticker.BTC-PERPETUAL.100ms"]}}'')\<close>
proof -
  have dumped: \<open>json_dumps msg =
     ''{"jsonrpc": "2.0", "method": "public/subscribe", "params": {"channels": ["ticker.BTC-PERPETUAL.100ms"]}}''\<close>
    by (simp add: msg_def encode_basestring_ascii_def escape_char_def)
  have "\<forall>g f. Send g f \<in> set t \<longrightarrow> f = json_dumps msg"
    if "exec w n init = (t, c)" for t c
    using that
  proof (rule exec_invariant [where P = "\<lambda>t c. \<forall>g f. Send g f \<in> set t \<longrightarrow> f = json_dumps msg", rotated 2])
    show "\<forall>g f. Send g f \<in> set [] \<longrightarrow> f = json_dumps msg" by simp
  next
    fix t c es c'
    assume "\<forall>g f. Send g f \<in> set t \<longrightarrow> f = json_dumps msg" and "step w c = (es, c')"
    then show "\<forall>g f. Send g f \<in> set (t @ es) \<longrightarrow> f = json_dumps msg"
      by (auto simp: step_defs split: pc.splits outcome.splits exc.splits if_splits)
  qed
  then have "\<forall>g f. Send g f \<in> set (fst (print_btc_ticker w n)) \<longrightarrow> f = json_dumps msg"
    by (cases "exec w n init") (simp add: print_btc_ticker_def)
  with dumped show ?thesis by simp
qed

theorem subscribe_frame_witness:
  \<open>Send 0 (json_dumps msg) \<in> set (fst (print_btc_ticker steady 2)) \<and> json_dumps msg =
     ''{"jsonrpc": "2.0", "method": "public/subscribe", "params": {"channels": ["ticker.BTC-PERPETUAL.100ms"]}}''\<close>
proof -
  have "Send 0 (json_dumps msg) \<in> set (fst (print_btc_ticker steady 2))"
    by (simp add: print_btc_ticker_def init_def step_defs steady_def eval_nat_numeral)
  then show ?thesis using subscribe_frame [of steady 2] by blast
qed


subsection \<open>A failing consumer\<close>

text \<open>
  C1, as the claim states it, fails. In the world \<open>consumer_fails\<close> the consumer raises
  an \<^verbatim>\<open>Exception\<close> on the first message of connection 0. The handler that catches it is
  the one around the whole body: the error is logged, connection 0 is closed, a second
  connection attempt is made, the request is sent again, and the next message is received
  and printed on connection 1. The generation count goes from 1 to 2.
\<close>

theorem consumer_failure_reconnects:
  "print_btc_ticker consumer_fails 7 =
    ([Connect_attempt 0, Opened 0, Send 0 (json_dumps msg),
      Recv 0, Frame 0 ''tick'', Print 0 ''tick'',
      Log_error ''Error in print_btc_ticker: broken pipe'', Close 0,
      Connect_attempt 1, Opened 1, Send 1 (json_dumps msg),
      Recv 1, Frame 1 ''tick'', Print 1 ''tick''],
     \<lparr>pc = Body_while 1 1, attempts = 2, generation = 2\<rparr>)"
  by (simp add: run_defs consumer_fails_def)

text \<open>
  C1, amended. When the consumer raises an \<^verbatim>\<open>Exception\<close> on a delivered message, the
  program logs the error once and leaves the receive loop of that connection. Control goes
  back to the generator, which first closes the connection. Every later send, receive and
  delivery is on a connection of a later generation.
\<close>

theorem consumer_failure_ends_connection:
  assumes "print_btc_ticker w n = (t, c)"
    and "pc c = Body_while g k" and "ws_open w g k"
    and "ws_recv w g k = Returns m" and "py_print w g k m = Raises (Is_Exception e)"
  shows "step w c = ([Recv g, Frame g m, Print g m,
                       Log_error (''Error in print_btc_ticker: '' @ e)],
                      c\<lparr>pc := Gen_resume g\<rparr>)
       \<and> (\<exists>rest. fst (step w (c\<lparr>pc := Gen_resume g\<rparr>)) = Close g # rest)
       \<and> (\<forall>j. \<forall>x\<in>set (fst (exec w j (c\<lparr>pc := Gen_resume g\<rparr>))).
            \<forall>h. uses x = Some h \<longrightarrow> g < h)"
proof -
  have "wf c" using wf_reachable [of w n] assms(1) by simp
  then have lb: "left_behind g (c\<lparr>pc := Gen_resume g\<rparr>)"
    using assms(2) by (intro left_behind_resume) simp_all
  have "\<forall>x\<in>set (fst (exec w j (c\<lparr>pc := Gen_resume g\<rparr>))). \<forall>h. uses x = Some h \<longrightarrow> g < h" for j
    using left_behind_exec [OF lb, of w j] by (cases "exec w j (c\<lparr>pc := Gen_resume g\<rparr>)") auto
  moreover have "step w c = ([Recv g, Frame g m, Print g m,
                       Log_error (''Error in print_btc_ticker: '' @ e)],
                      c\<lparr>pc := Gen_resume g\<rparr>)"
    using assms(2,3,4,5) by (simp add: step_def body_while_def body_handler_def)
  ultimately show ?thesis using resume_closes by blast
qed

text \<open>
  The amended C1 in the world \<open>consumer_fails\<close>: after the connection and the handshake
  the consumer fails on the first message of connection 0; four steps later a frame has
  been received on connection 1, and none on connection 0.
\<close>

theorem consumer_failure_ends_connection_witness:
  "print_btc_ticker consumer_fails 2 =
     ([Connect_attempt 0, Opened 0, Send 0 (json_dumps msg)],
      \<lparr>pc = Body_while 0 0, attempts = 1, generation = 1\<rparr>)
   \<and> ws_open consumer_fails 0 0
   \<and> ws_recv consumer_fails 0 0 = Returns ''tick''
   \<and> py_print consumer_fails 0 0 ''tick'' = Raises (Is_Exception ''broken pipe'')
   \<and> step consumer_fails \<lparr>pc = Body_while 0 0, attempts = 1, generation = 1\<rparr> =
       ([Recv 0, Frame 0 ''tick'', Print 0 ''tick'',
         Log_error ''Error in print_btc_ticker: broken pipe''],
        \<lparr>pc = Gen_resume 0, attempts = 1, generation = 1\<rparr>)
   \<and> Recv 1 \<in> set (fst (exec consumer_fails 4 \<lparr>pc = Gen_resume 0, attempts = 1, generation = 1\<rparr>))
   \<and> Recv 0 \<notin> set (fst (exec consumer_fails 4 \<lparr>pc = Gen_resume 0, attempts = 1, generation = 1\<rparr>))"
proof -
  let ?c = "\<lparr>pc = Body_while 0 0, attempts = 1, generation = 1\<rparr>"
  have run: "print_btc_ticker consumer_fails 2 =
      ([Connect_attempt 0, Opened 0, Send 0 (json_dumps msg)], ?c)"
    by (simp add: run_defs consumer_fails_def)
  have at: "pc ?c = Body_while 0 0" by simp
  have op: "ws_open consumer_fails 0 0" by (simp add: consumer_fails_def steady_def)
  have rc: "ws_recv consumer_fails 0 0 = Returns ''tick''"
    by (simp add: consumer_fails_def steady_def)
  have pr: "py_print consumer_fails 0 0 ''tick'' = Raises (Is_Exception ''broken pipe'')"
    by (simp add: consumer_fails_def steady_def)
  have later: "Recv 1 \<in> set (fst (exec consumer_fails 4 (?c\<lparr>pc := Gen_resume 0\<rparr>)))"
    by (simp add: run_defs consumer_fails_def)
  from consumer_failure_ends_connection [OF run at op rc pr] later
  have "step consumer_fails ?c =
      ([Recv 0, Frame 0 ''tick'', Print 0 ''tick'',
        Log_error (''Error in print_btc_ticker: '' @ ''broken pipe'')], ?c\<lparr>pc := Gen_resume 0\<rparr>)"
    and "Recv 0 \<notin> set (fst (exec consumer_fails 4 (?c\<lparr>pc := Gen_resume 0\<rparr>)))"
    by (blast, fastforce)
  with run op rc pr later show ?thesis by simp
qed

subsection \<open>The retry delay\<close>

text \<open>
  C2 describes what line 17 is there for; the code misses it. The handler of
  \<^verbatim>\<open>websocket_generator\<close> calls \<^verbatim>\<open>asyncio.sleep(retry_seconds)\<close> and drops the
  coroutine it gets: without \<^verbatim>\<open>await\<close> nothing is suspended. In the world
  \<open>refused_once\<close> the first attempt is refused, and the trace of the first two steps shows
  the second attempt right after the log line and the dropped sleep.
\<close>

theorem retry_sleep_not_awaited:
  "print_btc_ticker refused_once 2 =
    ([Connect_attempt 0, Log_error ''Websocket connection failed: refused'', Sleep_unawaited 5,
      Connect_attempt 1, Opened 0],
     \<lparr>pc = Body_send 0, attempts = 2, generation = 1\<rparr>)"
  by (simp add: run_defs refused_once_def)

subsection \<open>The handshake\<close>

lemma opened_step:
  assumes "Opened g \<in> set t \<longleftrightarrow> g < generation c" and "step w c = (es, c')"
  shows "Opened g \<in> set (t @ es) \<longleftrightarrow> g < generation c'"
  using assms(2) assms(1)
  by (cases rule: step_cases) auto

lemma sends_step:
  assumes "wf c"
    and "sends g t = (if g < generation c \<and> pc c \<noteq> Body_send g then [json_dumps msg] else [])"
    and "step w c = (es, c')"
  shows "sends g (t @ es) =
    (if g < generation c' \<and> pc c' \<noteq> Body_send g then [json_dumps msg] else [])"
  using assms(3) assms(1,2)
  by (cases rule: step_cases) (auto simp: sends_append wf_def)

lemma handshake_step:
  assumes "wf c"
    and "\<And>g. sends g t =
      (if g < generation c \<and> pc c \<noteq> Body_send g then [json_dumps msg] else [])"
    and "all_splits handshake_seen t"
    and "step w c = (es, c')"
  shows "all_splits handshake_seen (t @ es)"
  using assms(4) assms(1,3) assms(2)
  by (cases rule: step_cases)
    (simp_all add: all_splits_append handshake_seen_def sends_append wf_def)

lemma hs_inv_step: "hs_inv t c \<Longrightarrow> step w c = (es, c') \<Longrightarrow> hs_inv (t @ es) c'"
  unfolding hs_inv_def
  using wf_step [of c w es c'] handshake_step [of c t w es c'] opened_step [of _ t c w es c']
    sends_step [of c _ t w es c']
  by blast

lemma hs_inv_reachable: "print_btc_ticker w n = (t, c) \<Longrightarrow> hs_inv t c"
  unfolding print_btc_ticker_def
proof (erule exec_invariant [rotated 2])
  show "hs_inv [] init" by (simp add: hs_inv_def wf_init all_splits_Nil) (simp add: init_def)
qed (rule hs_inv_step)

text \<open>
  C3. In every run, for every connection \<open>g\<close>: once \<open>g\<close> has been yielded and the
  program has gone past the send of line 33, exactly one frame has been sent on \<open>g\<close>, the
  subscription request; before that, none. Whenever a receive is attempted on \<open>g\<close>, a
  frame is returned on \<open>g\<close> or a message of \<open>g\<close> is handed to the consumer, that one
  request has already been sent on \<open>g\<close>.
\<close>

theorem handshake_once_and_first:
  assumes "print_btc_ticker w n = (t, c)"
  shows "(Opened g \<in> set t \<and> pc c \<noteq> Body_send g \<longrightarrow> sends g t = [json_dumps msg])
       \<and> (Opened g \<notin> set t \<or> pc c = Body_send g \<longrightarrow> sends g t = [])
       \<and> (\<forall>pre e post. t = pre @ e # post \<and> pumps e = Some g \<longrightarrow> sends g pre = [json_dumps msg])"
  using hs_inv_reachable [OF assms]
  unfolding hs_inv_def all_splits_def handshake_seen_def by auto

text \<open>
  C3 in the world \<open>steady\<close>: after one step connection 0 is yielded and nothing is sent
  yet; after three steps one request has been sent, and it was sent before the first
  receive.
\<close>

theorem handshake_once_and_first_witness:
  "print_btc_ticker steady 1 =
     ([Connect_attempt 0, Opened 0], \<lparr>pc = Body_send 0, attempts = 1, generation = 1\<rparr>)
   \<and> sends 0 [Connect_attempt 0, Opened 0] = []
   \<and> print_btc_ticker steady 3 =
     ([Connect_attempt 0, Opened 0, Send 0 (json_dumps msg)]
        @ Recv 0 # [Frame 0 ''tick'', Print 0 ''tick''],
      \<lparr>pc = Body_while 0 1, attempts = 1, generation = 1\<rparr>)
   \<and> pumps (Recv 0) = Some 0
   \<and> sends 0 [Connect_attempt 0, Opened 0, Send 0 (json_dumps msg)] = [json_dumps msg]
   \<and> sends 0 ([Connect_attempt 0, Opened 0, Send 0 (json_dumps msg)]
        @ Recv 0 # [Frame 0 ''tick'', Print 0 ''tick'']) = [json_dumps msg]"
proof -
  have run1: "print_btc_ticker steady 1 =
     ([Connect_attempt 0, Opened 0], \<lparr>pc = Body_send 0, attempts = 1, generation = 1\<rparr>)"
    by (simp add: run_defs)
  have run3: "print_btc_ticker steady 3 =
     ([Connect_attempt 0, Opened 0, Send 0 (json_dumps msg)]
        @ Recv 0 # [Frame 0 ''tick'', Print 0 ''tick''],
      \<lparr>pc = Body_while 0 1, attempts = 1, generation = 1\<rparr>)"
    by (simp add: run_defs)
  from handshake_once_and_first [OF run1, of 0] handshake_once_and_first [OF run3, of 0]
  have "sends 0 [Connect_attempt 0, Opened 0] = []"
    and "sends 0 [Connect_attempt 0, Opened 0, Send 0 (json_dumps msg)] = [json_dumps msg]"
    and "sends 0 ([Connect_attempt 0, Opened 0, Send 0 (json_dumps msg)]
        @ Recv 0 # [Frame 0 ''tick'', Print 0 ''tick'']) = [json_dumps msg]"
    by simp_all
  with run1 run3 show ?thesis by simp
qed

subsection \<open>Failures never leave the program\<close>

lemma refusals_run:
  assumes "pc c = Gen_connect" and "\<forall>i<k. is_failure (ws_connect w (attempts c + i))"
  shows "snd (exec w k c) = c\<lparr>attempts := attempts c + k\<rparr>
       \<and> filter is_connect_attempt (fst (exec w k c)) =
           map Connect_attempt [attempts c..<attempts c + k]"
  using assms(2)
proof (induction k)
  case 0
  then show ?case by simp
next
  case (Suc k)
  obtain t d where e: "exec w k c = (t, d)" by (cases "exec w k c")
  with Suc have d: "d = c\<lparr>attempts := attempts c + k\<rparr>"
    and t: "filter is_connect_attempt t = map Connect_attempt [attempts c..<attempts c + k]"
    by simp_all
  from Suc.prems obtain x where "ws_connect w (attempts c + k) = Raises (Is_Exception x)"
    by (auto simp: is_failure_iff)
  with assms(1) have "step w d =
    ([Connect_attempt (attempts c + k),
      Log_error (''Websocket connection failed: '' @ x), Sleep_unawaited 5],
     c\<lparr>attempts := attempts c + Suc k\<rparr>)"
    by (cases c) (simp add: d step_defs)
  with e t show ?case by (simp add: exec_Suc_right del: exec.simps)
qed

lemma raised_step:
  assumes "\<forall>x. pc c = Raised x \<longrightarrow> (\<exists>e. x = Not_Exception e)" and "step w c = (es, c')"
  shows "\<forall>x. pc c' = Raised x \<longrightarrow> (\<exists>e. x = Not_Exception e)"
  using assms(2) assms(1) by (cases rule: step_cases) auto

lemma raised_reachable:
  assumes "pc (snd (print_btc_ticker w n)) = Raised x"
  shows "\<exists>e. x = Not_Exception e"
proof -
  obtain t c where e: "exec w n init = (t, c)" by (cases "exec w n init")
  have "\<forall>x. pc c = Raised x \<longrightarrow> (\<exists>e. x = Not_Exception e)"
    using e
  proof (rule exec_invariant [rotated 2])
    show "\<forall>x. pc init = Raised x \<longrightarrow> (\<exists>e. x = Not_Exception e)" by (simp add: init_def)
  qed (rule raised_step)
  with e assms show ?thesis by (simp add: print_btc_ticker_def)
qed

text \<open>
  C4. From any point where the generator is about to connect, however many connection
  attempts then fail in a row, it is back at the head of its loop after each: after \<open>k\<close>
  failures it has made exactly \<open>k\<close> further attempts, nothing else of its state has
  changed, and the next step is one more attempt; no count stops it. And whatever leaves
  \<^verbatim>\<open>print_btc_ticker\<close> in any run is not an \<^verbatim>\<open>Exception\<close>: the failures of
  connecting, sending and receiving are all caught.
\<close>

theorem retries_without_bound:
  "(pc c = Gen_connect \<and> (\<forall>i<k. is_failure (ws_connect w (attempts c + i))) \<longrightarrow>
      snd (exec w k c) = c\<lparr>attempts := attempts c + k\<rparr> \<and>
      filter is_connect_attempt (fst (exec w k c)) =
        map Connect_attempt [attempts c..<attempts c + k])
   \<and> (\<forall>x. pc (snd (print_btc_ticker w n)) = Raised x \<longrightarrow> (\<exists>e. x = Not_Exception e))"
  using refusals_run [of c k w] raised_reachable [of w n] by simp

text \<open>
  C4 in the world \<open>refused_always\<close>, three refusals, and in the world
  \<open>cancelled_in_recv\<close>, where a cancellation does leave the program.
\<close>

theorem retries_without_bound_witness:
  "pc init = Gen_connect
   \<and> snd (exec refused_always 3 init) = \<lparr>pc = Gen_connect, attempts = 3, generation = 0\<rparr>
   \<and> filter is_connect_attempt (fst (exec refused_always 3 init)) =
       [Connect_attempt 0, Connect_attempt 1, Connect_attempt 2]
   \<and> pc (snd (print_btc_ticker cancelled_in_recv 4)) = Raised (Not_Exception ''CancelledError'')"
proof -
  have start: "pc init = Gen_connect" by (simp add: init_def)
  have refusals: "\<forall>i<3. is_failure (ws_connect refused_always (attempts init + i))"
    by (simp add: refused_always_def steady_def)
  have cancelled:
    "pc (snd (print_btc_ticker cancelled_in_recv 4)) = Raised (Not_Exception ''CancelledError'')"
    by (simp add: run_defs cancelled_in_recv_def)
  have upt: "[0..<3] = [0, 1, 2::nat]" by (simp add: eval_nat_numeral upt_rec)
  from retries_without_bound [where c = init and k = 3 and w = refused_always and n = 0] start refusals
    retries_without_bound [where c = init and k = 0 and w = cancelled_in_recv and n = 4] cancelled upt
  show ?thesis by (simp add: init_def)
qed


subsection \<open>A failing receive\<close>

text \<open>
  C5. When \<^verbatim>\<open>recv\<close> raises an \<^verbatim>\<open>Exception\<close>, the step that meets it does the receive,
  logs one error and hands control to the generator: it does nothing else, in particular it
  creates no sleep. The generator then closes the connection first, and no later event of
  the run sends, receives or delivers on that connection.
\<close>

theorem receive_failure_ends_pump:
  assumes "print_btc_ticker w n = (t, c)"
    and "pc c = Body_while g k" and "ws_open w g k"
    and "ws_recv w g k = Raises (Is_Exception e)"
  shows "step w c = ([Recv g, Log_error (''Error in print_btc_ticker: '' @ e)],
                      c\<lparr>pc := Gen_resume g\<rparr>)
       \<and> filter is_sleep (fst (step w c)) = []
       \<and> (\<exists>rest. fst (step w (c\<lparr>pc := Gen_resume g\<rparr>)) = Close g # rest)
       \<and> (\<forall>j. \<forall>x\<in>set (fst (exec w j (c\<lparr>pc := Gen_resume g\<rparr>))). uses x \<noteq> Some g)"
proof -
  have "wf c" using wf_reachable [of w n] assms(1) by simp
  then have lb: "left_behind g (c\<lparr>pc := Gen_resume g\<rparr>)"
    using assms(2) by (intro left_behind_resume) simp_all
  have "\<forall>x\<in>set (fst (exec w j (c\<lparr>pc := Gen_resume g\<rparr>))). uses x \<noteq> Some g" for j
    using left_behind_exec [OF lb, of w j] by (cases "exec w j (c\<lparr>pc := Gen_resume g\<rparr>)") auto
  moreover have failing: "step w c = ([Recv g, Log_error (''Error in print_btc_ticker: '' @ e)],
                      c\<lparr>pc := Gen_resume g\<rparr>)"
    using assms(2,3,4) by (simp add: step_def body_while_def body_handler_def)
  moreover have "filter is_sleep (fst (step w c)) = []"
    by (simp add: failing)
  ultimately show ?thesis using resume_closes by blast
qed

text \<open>
  C5 in the world \<open>recv_fails\<close>: the second receive on connection 0 fails; in the four
  steps that follow, the program receives on connection 1 and never on connection 0.
\<close>

theorem receive_failure_ends_pump_witness:
  "print_btc_ticker recv_fails 3 =
     ([Connect_attempt 0, Opened 0, Send 0 (json_dumps msg),
       Recv 0, Frame 0 ''tick'', Print 0 ''tick''],
      \<lparr>pc = Body_while 0 1, attempts = 1, generation = 1\<rparr>)
   \<and> ws_open recv_fails 0 1
   \<and> ws_recv recv_fails 0 1 = Raises (Is_Exception ''connection closed'')
   \<and> step recv_fails \<lparr>pc = Body_while 0 1, attempts = 1, generation = 1\<rparr> =
       ([Recv 0, Log_error ''Error in print_btc_ticker: connection closed''],
        \<lparr>pc = Gen_resume 0, attempts = 1, generation = 1\<rparr>)
   \<and> filter is_sleep (fst (step recv_fails \<lparr>pc = Body_while 0 1, attempts = 1, generation = 1\<rparr>))
       = []
   \<and> Recv 1 \<in> set (fst (exec recv_fails 4 \<lparr>pc = Gen_resume 0, attempts = 1, generation = 1\<rparr>))
   \<and> Recv 0 \<notin> set (fst (exec recv_fails 4 \<lparr>pc = Gen_resume 0, attempts = 1, generation = 1\<rparr>))"
proof -
  let ?c = "\<lparr>pc = Body_while 0 1, attempts = 1, generation = 1\<rparr>"
  have run: "print_btc_ticker recv_fails 3 =
     ([Connect_attempt 0, Opened 0, Send 0 (json_dumps msg),
       Recv 0, Frame 0 ''tick'', Print 0 ''tick''], ?c)"
    by (simp add: run_defs recv_fails_def)
  have at: "pc ?c = Body_while 0 1" by simp
  have op: "ws_open recv_fails 0 1" by (simp add: recv_fails_def steady_def)
  have rc: "ws_recv recv_fails 0 1 = Raises (Is_Exception ''connection closed'')"
    by (simp add: recv_fails_def steady_def)
  have later: "Recv 1 \<in> set (fst (exec recv_fails 4 (?c\<lparr>pc := Gen_resume 0\<rparr>)))"
    by (simp add: run_defs recv_fails_def)
  from receive_failure_ends_pump [OF run at op rc]
  have "step recv_fails ?c =
      ([Recv 0, Log_error (''Error in print_btc_ticker: '' @ ''connection closed'')],
       ?c\<lparr>pc := Gen_resume 0\<rparr>)"
    and "filter is_sleep (fst (step recv_fails ?c)) = []"
    and "Recv 0 \<notin> set (fst (exec recv_fails 4 (?c\<lparr>pc := Gen_resume 0\<rparr>)))"
    by (blast, blast, fastforce)
  with run op rc later show ?thesis by simp
qed

subsection \<open>Shutdown\<close>

text \<open>
  C6, as the claim states it, fails. The source reads no shutdown signal; what can stop it
  from outside is a cancellation, raised where the program is suspended. In the world
  \<open>cancelled_after_refusal\<close> the first attempt is refused and the task is cancelled after
  that. The handler does not suspend, so the program is next suspended inside the second
  connection attempt: that attempt is issued, and the run ends there with the cancellation
  leaving \<^verbatim>\<open>print_btc_ticker\<close>, not with the generator running out of items.
\<close>

theorem cancellation_after_refusal:
  "print_btc_ticker cancelled_after_refusal 2 =
    ([Connect_attempt 0, Log_error ''Websocket connection failed: refused'', Sleep_unawaited 5,
      Connect_attempt 1],
     \<lparr>pc = Raised (Not_Exception ''CancelledError''), attempts = 2, generation = 0\<rparr>)"
  by (simp add: run_defs cancelled_after_refusal_def)

lemma cancelled_step:
  assumes "cancelled_at w c"
  shows "\<exists>x. pc (snd (step w c)) = Raised (Not_Exception x)"
proof -
  obtain es c' where s: "step w c = (es, c')" by (cases "step w c")
  have "\<exists>x. pc c' = Raised (Not_Exception x)"
    using s assms
    by (cases rule: step_cases) (auto simp: cancelled_at_def meets_def split: pc.splits)
  with s show ?thesis by simp
qed

lemma cancelled_step_no_handle:
  assumes "cancelled_at w c"
  shows "Opened g \<notin> set (fst (step w c))"
proof -
  obtain es c' where s: "step w c = (es, c')" by (cases "step w c")
  have "Opened g \<notin> set es"
    using s assms
    by (cases rule: step_cases) (auto simp: cancelled_at_def meets_def split: pc.splits)
  with s show ?thesis by simp
qed

lemma ending_step:
  assumes "running (pc c)" and "step w c = (es, c')" and "\<not> running (pc c')"
  shows "cancelled_at w c \<and> (\<exists>x. pc c' = Raised (Not_Exception x))"
  using assms(2) assms(1,3)
  by (cases rule: step_cases) (auto simp: cancelled_at_def meets_def)

lemma ended_step:
  assumes "\<not> running (pc c)" and "step w c = (es, c')"
  shows "c' = c"
  using assms(2) assms(1) by (cases rule: step_cases) auto

lemma ended_only_by_cancellation:
  assumes "\<not> running (pc (snd (print_btc_ticker w n)))"
  shows "(\<exists>x. pc (snd (print_btc_ticker w n)) = Raised (Not_Exception x))
       \<and> (\<exists>j<n. cancelled_at w (snd (print_btc_ticker w j)))"
  using assms
proof (induction n)
  case 0
  then show ?case by (simp add: print_btc_ticker_def init_def)
next
  case (Suc n)
  obtain t c where e: "exec w n init = (t, c)" by (cases "exec w n init")
  obtain es c' where s: "step w c = (es, c')" by (cases "step w c")
  from e s have next_c: "snd (print_btc_ticker w (Suc n)) = c'"
    by (simp add: print_btc_ticker_def exec_Suc_right del: exec.simps)
  from e have this_c: "snd (print_btc_ticker w n) = c" by (simp add: print_btc_ticker_def)
  show ?case
  proof (cases "running (pc c)")
    case True
    with s Suc.prems next_c have "cancelled_at w c \<and> (\<exists>x. pc c' = Raised (Not_Exception x))"
      by (intro ending_step) simp_all
    with next_c this_c show ?thesis by auto
  next
    case False
    have "c' = c" by (rule ended_step [OF False s])
    moreover from False this_c Suc.IH
    have "(\<exists>x. pc c = Raised (Not_Exception x)) \<and> (\<exists>j<n. cancelled_at w (snd (print_btc_ticker w j)))"
      by simp
    ultimately show ?thesis using next_c less_Suc_eq by auto
  qed
qed

text \<open>
  C6, amended. There is no shutdown signal in the source. \<^verbatim>\<open>print_btc_ticker\<close> ends
  only by a step that meets something which is not an \<^verbatim>\<open>Exception\<close> (at the connection
  attempt, the send, the receive, the \<^verbatim>\<open>print\<close> or the close), and every such step ends
  it: that object leaves \<^verbatim>\<open>print_btc_ticker\<close>, and the step yields no connection. So a
  run that is over was ended by such a step and is over with that object raised, never with
  a return.
\<close>

theorem ends_by_propagation_only:
  "(cancelled_at w c \<longrightarrow>
      (\<exists>x. pc (snd (step w c)) = Raised (Not_Exception x)) \<and>
      (\<forall>g. Opened g \<notin> set (fst (step w c))))
   \<and> (\<not> running (pc (snd (print_btc_ticker w n))) \<longrightarrow>
      (\<exists>x. pc (snd (print_btc_ticker w n)) = Raised (Not_Exception x)) \<and>
      (\<exists>j<n. cancelled_at w (snd (print_btc_ticker w j))))"
  using cancelled_step [of w c] cancelled_step_no_handle [of w c]
    ended_only_by_cancellation [of w n]
  by blast

text \<open>
  The amended C6 in the world \<open>cancelled_after_refusal\<close>: the run is over after two
  steps, and the step that ended it is the second connection attempt, met by the
  cancellation.
\<close>

theorem ends_by_propagation_only_witness:
  "cancelled_at cancelled_after_refusal \<lparr>pc = Gen_connect, attempts = 1, generation = 0\<rparr>
   \<and> pc (snd (step cancelled_after_refusal \<lparr>pc = Gen_connect, attempts = 1, generation = 0\<rparr>))
       = Raised (Not_Exception ''CancelledError'')
   \<and> Opened 0 \<notin> set (fst (step cancelled_after_refusal
        \<lparr>pc = Gen_connect, attempts = 1, generation = 0\<rparr>))
   \<and> \<not> running (pc (snd (print_btc_ticker cancelled_after_refusal 2)))
   \<and> pc (snd (print_btc_ticker cancelled_after_refusal 2))
       = Raised (Not_Exception ''CancelledError'')
   \<and> snd (print_btc_ticker cancelled_after_refusal 1)
       = \<lparr>pc = Gen_connect, attempts = 1, generation = 0\<rparr>"
proof -
  let ?c = "\<lparr>pc = Gen_connect, attempts = 1, generation = 0\<rparr>"
  have hit: "cancelled_at cancelled_after_refusal ?c"
    by (simp add: cancelled_at_def meets_def cancelled_after_refusal_def steady_def)
  have where_to: "pc (snd (step cancelled_after_refusal ?c)) = Raised (Not_Exception ''CancelledError'')"
    by (simp add: step_defs cancelled_after_refusal_def steady_def)
  have ended: "pc (snd (print_btc_ticker cancelled_after_refusal 2))
      = Raised (Not_Exception ''CancelledError'')"
    by (simp add: run_defs cancelled_after_refusal_def)
  then have over: "\<not> running (pc (snd (print_btc_ticker cancelled_after_refusal 2)))" by simp
  have before: "snd (print_btc_ticker cancelled_after_refusal 1) = ?c"
    by (simp add: run_defs cancelled_after_refusal_def)
  from ends_by_propagation_only [of cancelled_after_refusal ?c 2] hit where_to ended over before
  show ?thesis by simp
qed

subsection \<open>One connection at a time\<close>

lemma oh_inv_step: "oh_inv t c \<Longrightarrow> step w c = (es, c') \<Longrightarrow> oh_inv (t @ es) c'"
  by (cases rule: step_cases, assumption)
   (simp_all add: oh_inv_def all_splits_append one_open_def open_handles_append)

lemma oh_inv_reachable: "print_btc_ticker w n = (t, c) \<Longrightarrow> oh_inv t c"
  unfolding print_btc_ticker_def
proof (erule exec_invariant [rotated 2])
  show "oh_inv [] init" by (simp add: oh_inv_def all_splits_Nil open_handles_def init_def)
qed (rule oh_inv_step)

text \<open>
  C9. A connection is open from the moment the generator yields it to the moment the
  \<^verbatim>\<open>async with\<close> block around the \<^verbatim>\<open>yield\<close> is left. At every point of every run at most
  one connection is open, and at every connection attempt none is: the connection of the
  previous generation has been closed before.
\<close>

theorem one_handle_at_a_time:
  assumes "print_btc_ticker w n = (t, c)"
  shows "length (open_handles t) \<le> 1
       \<and> (\<forall>pre e post. t = pre @ e # post \<longrightarrow>
            length (open_handles pre) \<le> 1 \<and> (is_connect_attempt e \<longrightarrow> open_handles pre = []))"
proof -
  have inv: "oh_inv t c" by (rule oh_inv_reachable [OF assms])
  have "length (open_handles pre) \<le> 1 \<and> (is_connect_attempt e \<longrightarrow> open_handles pre = [])"
    if "t = pre @ e # post" for pre e post
  proof -
    from inv that have a: "one_open pre e" by (auto simp: oh_inv_def all_splits_def)
    show ?thesis
    proof (cases pre rule: rev_cases)
      case Nil
      with a show ?thesis by (simp add: one_open_def open_handles_def)
    next
      case (snoc pre' x)
      with that have "t = pre' @ x # (e # post)" by simp
      with inv have "one_open pre' x" by (auto simp: oh_inv_def all_splits_def)
      with snoc a show ?thesis by (simp add: one_open_def)
    qed
  qed
  with inv show ?thesis by (auto simp: oh_inv_def)
qed

text \<open>
  C9 in the world \<open>consumer_fails\<close>, at the second connection attempt: connection 0 was
  opened and closed before it.
\<close>

theorem one_handle_at_a_time_witness:
  "print_btc_ticker consumer_fails 5 =
     ([Connect_attempt 0, Opened 0, Send 0 (json_dumps msg),
       Recv 0, Frame 0 ''tick'', Print 0 ''tick'',
       Log_error ''Error in print_btc_ticker: broken pipe'', Close 0]
        @ Connect_attempt 1 # [Opened 1],
      \<lparr>pc = Body_send 1, attempts = 2, generation = 2\<rparr>)
   \<and> is_connect_attempt (Connect_attempt 1)
   \<and> open_handles [Connect_attempt 0, Opened 0, Send 0 (json_dumps msg),
       Recv 0, Frame 0 ''tick'', Print 0 ''tick'',
       Log_error ''Error in print_btc_ticker: broken pipe'', Close 0] = []
   \<and> length (open_handles ([Connect_attempt 0, Opened 0, Send 0 (json_dumps msg),
       Recv 0, Frame 0 ''tick'', Print 0 ''tick'',
       Log_error ''Error in print_btc_ticker: broken pipe'', Close 0]
        @ Connect_attempt 1 # [Opened 1])) \<le> 1"
proof -
  have run: "print_btc_ticker consumer_fails 5 =
     ([Connect_attempt 0, Opened 0, Send 0 (json_dumps msg),
       Recv 0, Frame 0 ''tick'', Print 0 ''tick'',
       Log_error ''Error in print_btc_ticker: broken pipe'', Close 0]
        @ Connect_attempt 1 # [Opened 1],
      \<lparr>pc = Body_send 1, attempts = 2, generation = 2\<rparr>)"
    by (simp add: run_defs consumer_fails_def)
  from one_handle_at_a_time [OF run] have
    "length (open_handles ([Connect_attempt 0, Opened 0, Send 0 (json_dumps msg),
       Recv 0, Frame 0 ''tick'', Print 0 ''tick'',
       Log_error ''Error in print_btc_ticker: broken pipe'', Close 0]
        @ Connect_attempt 1 # [Opened 1])) \<le> 1"
    and "open_handles [Connect_attempt 0, Opened 0, Send 0 (json_dumps msg),
       Recv 0, Frame 0 ''tick'', Print 0 ''tick'',
       Log_error ''Error in print_btc_ticker: broken pipe'', Close 0] = []"
    by (blast, fastforce)
  with run show ?thesis by simp
qed

subsection \<open>No way out but cancellation\<close>

lemma running_step:
  assumes "no_cancellation w" and "running (pc c)" and "step w c = (es, c')"
  shows "running (pc c')"
  using assms(3) assms(1,2)
  by (cases rule: step_cases) (auto simp: no_cancellation_def is_cancel_iff)

lemma running_reachable:
  assumes "no_cancellation w"
  shows "running (pc (snd (print_btc_ticker w n)))"
proof -
  obtain t c where e: "exec w n init = (t, c)" by (cases "exec w n init")
  have "running (pc c)"
    using e
  proof (rule exec_invariant [rotated 2])
    show "running (pc init)" by (simp add: init_def)
  qed (rule running_step [OF assms])
  with e show ?thesis by (simp add: print_btc_ticker_def)
qed

lemma not_returned_step:
  assumes "pc c \<noteq> Returned" and "step w c = (es, c')"
  shows "pc c' \<noteq> Returned"
  using assms(2) assms(1) by (cases rule: step_cases) auto

lemma not_returned_reachable: "pc (snd (print_btc_ticker w n)) \<noteq> Returned"
proof -
  obtain t c where e: "exec w n init = (t, c)" by (cases "exec w n init")
  have "pc c \<noteq> Returned"
    using e
  proof (rule exec_invariant [rotated 2])
    show "pc init \<noteq> Returned" by (simp add: init_def)
  qed (rule not_returned_step)
  with e show ?thesis by (simp add: print_btc_ticker_def)
qed

lemma failure_reconnects:
  assumes "no_cancellation w" and "fails_at w c"
  shows "pc (snd (exec w 1 c)) = Gen_connect \<or> pc (snd (exec w 2 c)) = Gen_connect"
proof -
  obtain es c' where s: "step w c = (es, c')" by (cases "step w c")
  obtain es2 c2 where s2: "step w c' = (es2, c2)" by (cases "step w c'")
  have "pc c' = Gen_connect \<or> (\<exists>g. pc c' = Gen_resume g)"
    using s assms(2)
    by (cases rule: step_cases) (auto simp: fails_at_def meets_def split: pc.splits)
  moreover have "pc c2 = Gen_connect" if "pc c' = Gen_resume g" for g
    using s2 that assms(1)
    by (cases rule: step_cases) (auto simp: no_cancellation_def is_cancel_iff)
  ultimately show ?thesis using s s2 by (auto simp: eval_nat_numeral)
qed

text \<open>
  C10. In a world where no call raises anything but an \<^verbatim>\<open>Exception\<close>, every
  configuration the program reaches is a running one. In no world at all does
  \<^verbatim>\<open>print_btc_ticker\<close> return. And from any configuration whose step meets a failure (of
  the connection attempt, the handshake send, the receive, the consumer or the close), the
  program is back at a connection attempt after one step or after two.
\<close>

theorem never_terminates_unless_cancelled:
  "(no_cancellation w \<longrightarrow> running (pc (snd (print_btc_ticker w n))))
   \<and> pc (snd (print_btc_ticker w n)) \<noteq> Returned
   \<and> (no_cancellation w \<and> fails_at w c \<longrightarrow>
        pc (snd (exec w 1 c)) = Gen_connect \<or> pc (snd (exec w 2 c)) = Gen_connect)"
  using running_reachable [of w n] not_returned_reachable [of w n] failure_reconnects [of w c]
  by blast

text \<open>
  C10 in the world \<open>consumer_fails\<close>, which raises no cancellation: still running after
  seven steps, and back at a connection attempt two steps after the consumer has failed.
\<close>

theorem never_terminates_unless_cancelled_witness:
  "no_cancellation consumer_fails
   \<and> running (pc (snd (print_btc_ticker consumer_fails 7)))
   \<and> fails_at consumer_fails \<lparr>pc = Body_while 0 0, attempts = 1, generation = 1\<rparr>
   \<and> pc (snd (exec consumer_fails 2 \<lparr>pc = Body_while 0 0, attempts = 1, generation = 1\<rparr>))
       = Gen_connect"
proof -
  let ?c = "\<lparr>pc = Body_while 0 0, attempts = 1, generation = 1\<rparr>"
  have quiet: "no_cancellation consumer_fails"
    by (simp add: no_cancellation_def consumer_fails_def steady_def)
  have fails: "fails_at consumer_fails ?c"
    by (simp add: fails_at_def meets_def consumer_fails_def steady_def)
  have reconnected: "pc (snd (exec consumer_fails 2 ?c)) = Gen_connect"
    by (simp add: run_defs consumer_fails_def)
  from never_terminates_unless_cancelled [of consumer_fails 7 ?c] quiet fails reconnected
  show ?thesis by simp
qed

end
